theory Spec2Isabelle
  imports Main "HOL-Library.Char_ord" "HOL-Library.List_Lexorder" "HOL-Library.Product_Lexorder"
begin

section \<open>The ranked store: RedisService over a Redis sorted set\<close>

text \<open>
  \<^verbatim>\<open>RedisService\<close> keeps the leaderboard in one Redis sorted set
  (\<^verbatim>\<open>global:leaderboard\<close>) and reads it with \<^verbatim>\<open>ZADD\<close>, \<^verbatim>\<open>ZRANGE ... REV\<close>,
  \<^verbatim>\<open>ZREVRANK\<close>, \<^verbatim>\<open>ZSCORE\<close>, \<^verbatim>\<open>ZCARD\<close> and \<^verbatim>\<open>ZREM\<close>. Redis is not part of the
  repository; the sorted set is modelled as Redis documents it: members are unique,
  ordered by ascending score, members of equal score ordered lexicographically by
  their bytes, and \<^verbatim>\<open>REV\<close> reads this one order backwards (highest score first, members
  of equal score in reverse lexicographic order). A set is the list of its
  (member, score) pairs in ascending order. Scores are integers here (the controller
  validates them as non-negative integers).
\<close>

type_synonym zset = "(string \<times> int) list"

fun zkey :: "string \<times> int \<Rightarrow> int \<times> string" where
  "zkey (m, s) = (s, m)"

definition zRem :: "zset \<Rightarrow> string \<Rightarrow> zset" where
  "zRem zs m = filter (\<lambda>e. fst e \<noteq> m) zs"

definition zAdd :: "zset \<Rightarrow> string \<Rightarrow> int \<Rightarrow> zset" where
  "zAdd zs m s = insort_key zkey (m, s) (zRem zs m)"

definition zScore :: "zset \<Rightarrow> string \<Rightarrow> int option" where
  "zScore zs m = map_of zs m"

definition zCard :: "zset \<Rightarrow> nat" where
  "zCard zs = length zs"

fun index_of :: "string \<Rightarrow> zset \<Rightarrow> nat option" where
  "index_of m [] = None"
| "index_of m (e # es) =
     (if fst e = m then Some 0 else map_option Suc (index_of m es))"

definition zRevRank :: "zset \<Rightarrow> string \<Rightarrow> nat option" where
  "zRevRank zs m = index_of m (rev zs)"

text \<open>
  \<^verbatim>\<open>ZRANGE key start stop REV\<close>: indices are 0-based positions in the reversed order;
  a negative index counts from the end (\<open>-1\<close> is the last element); the range is
  inclusive and out-of-range indices are cut to the set.
\<close>

definition zRangeRev :: "zset \<Rightarrow> int \<Rightarrow> int \<Rightarrow> zset" where
  "zRangeRev zs start stop =
     (let llen = int (length zs);
          start1 = (if start < 0 then llen + start else start);
          stop1 = (if stop < 0 then llen + stop else stop);
          start2 = (if start1 < 0 then 0 else start1)
      in if start2 > stop1 \<or> start2 \<ge> llen then []
         else let stop2 = (if stop1 \<ge> llen then llen - 1 else stop1)
              in take (nat (stop2 - start2 + 1)) (drop (nat start2) (rev zs)))"

definition zset_inv :: "zset \<Rightarrow> bool" where
  "zset_inv zs = (sorted (map zkey zs) \<and> distinct (map fst zs))"

subsection \<open>types/index.ts\<close>

record LeaderboardEntry =
  player_id :: string
  rank :: nat
  score :: int

record LeaderboardUpdate =
  top10 :: "LeaderboardEntry list"
  timestamp :: int
  checksum :: string

record User =
  user_id :: string
  user_username :: string

record EnhancedLeaderboardEntry = LeaderboardEntry +
  username :: string

record ScoreSubmission =
  sub_player_id :: string
  sub_score :: int
  sub_timestamp :: string

subsection \<open>RedisService\<close>

text \<open>
  The four keys the service uses: the sorted set, the cached last update
  (\<^verbatim>\<open>leaderboard:cache\<close>), the last update timestamp (\<^verbatim>\<open>leaderboard:last_update\<close>, written
  with \<^verbatim>\<open>toString\<close> and read back with \<^verbatim>\<open>parseInt\<close>, so an integer or absent) and the
  cached users (\<^verbatim>\<open>user:<id>\<close>).
\<close>

record redis =
  leaderboard :: zset
  leaderboard_cache :: "LeaderboardUpdate option"
  last_update :: "int option"
  user_cache :: "string \<rightharpoonup> User"

definition empty_redis :: redis where
  "empty_redis =
     \<lparr>leaderboard = [], leaderboard_cache = None, last_update = None, user_cache = Map.empty\<rparr>"

definition addScore :: "redis \<Rightarrow> string \<Rightarrow> int \<Rightarrow> redis" where
  "addScore r playerId s = r\<lparr>leaderboard := zAdd (leaderboard r) playerId s\<rparr>"

text \<open>\<^verbatim>\<open>results.map((result, index) => ({player_id, rank: index + 1, score}))\<close>\<close>

fun map_index :: "nat \<Rightarrow> zset \<Rightarrow> LeaderboardEntry list" where
  "map_index index [] = []"
| "map_index index ((m, s) # rs) =
     \<lparr>player_id = m, rank = index + 1, score = s\<rparr> # map_index (Suc index) rs"

definition getTopPlayers :: "redis \<Rightarrow> int \<Rightarrow> LeaderboardEntry list" where
  "getTopPlayers r count = map_index 0 (zRangeRev (leaderboard r) 0 (count - 1))"

definition getPlayerRank :: "redis \<Rightarrow> string \<Rightarrow> nat option" where
  "getPlayerRank r playerId =
     (case zRevRank (leaderboard r) playerId of Some rk \<Rightarrow> Some (rk + 1) | None \<Rightarrow> None)"

definition getPlayerScore :: "redis \<Rightarrow> string \<Rightarrow> int option" where
  "getPlayerScore r playerId = zScore (leaderboard r) playerId"

definition cacheLeaderboard :: "redis \<Rightarrow> LeaderboardUpdate \<Rightarrow> redis" where
  "cacheLeaderboard r upd = r\<lparr>leaderboard_cache := Some upd\<rparr>"

definition getCachedLeaderboard :: "redis \<Rightarrow> LeaderboardUpdate option" where
  "getCachedLeaderboard r = leaderboard_cache r"

definition setLastUpdateTimestamp :: "redis \<Rightarrow> int \<Rightarrow> redis" where
  "setLastUpdateTimestamp r t = r\<lparr>last_update := Some t\<rparr>"

definition getLastUpdateTimestamp :: "redis \<Rightarrow> int option" where
  "getLastUpdateTimestamp r = last_update r"

definition cacheUser :: "redis \<Rightarrow> string \<Rightarrow> User \<Rightarrow> redis" where
  "cacheUser r userId userDetails = r\<lparr>user_cache := (user_cache r)(userId \<mapsto> userDetails)\<rparr>"

definition getCachedUser :: "redis \<Rightarrow> string \<Rightarrow> User option" where
  "getCachedUser r userId = user_cache r userId"

definition getTotalPlayers :: "redis \<Rightarrow> nat" where
  "getTotalPlayers r = zCard (leaderboard r)"

definition removePlayer :: "redis \<Rightarrow> string \<Rightarrow> redis" where
  "removePlayer r playerId = r\<lparr>leaderboard := zRem (leaderboard r) playerId\<rparr>"

text \<open>A history of the store: the calls made on it, oldest first, from the empty store.\<close>

datatype store_op = Upsert string int | Remove string

fun apply_store_op :: "redis \<Rightarrow> store_op \<Rightarrow> redis" where
  "apply_store_op r (Upsert p s) = addScore r p s"
| "apply_store_op r (Remove p) = removePlayer r p"

definition run_store :: "store_op list \<Rightarrow> redis" where
  "run_store ops = foldl apply_store_op empty_redis ops"

text \<open>Whether a history ever upserted a participant.\<close>

fun was_upserted :: "string \<Rightarrow> store_op list \<Rightarrow> bool" where
  "was_upserted p [] = False"
| "was_upserted p (Upsert q s # ops) = (p = q \<or> was_upserted p ops)"
| "was_upserted p (Remove q # ops) = was_upserted p ops"

text \<open>
  Whether a participant is a member at the end of a history, given whether it was one
  at the start: an upsert makes it one, a remove ends that.
\<close>

fun present_from :: "bool \<Rightarrow> string \<Rightarrow> store_op list \<Rightarrow> bool" where
  "present_from b p [] = b"
| "present_from b p (Upsert q s # ops) = present_from (b \<or> p = q) p ops"
| "present_from b p (Remove q # ops) = present_from (b \<and> p \<noteq> q) p ops"

subsection \<open>ScoreController.getTopPlayers\<close>

text \<open>
  \<^verbatim>\<open>const limit = Math.min(parseInt(req.query.limit as string) || 10, 100)\<close>.
  The argument is what \<^verbatim>\<open>parseInt\<close> gives: an integer, or \<open>None\<close> for \<^verbatim>\<open>NaN\<close> (no
  limit in the query, or not a number). \<^verbatim>\<open>NaN\<close> and \<open>0\<close> are falsy, so \<^verbatim>\<open>||\<close> replaces
  both by 10. The handler answers with the list \<^verbatim>\<open>RedisService.getTopPlayers\<close> returns.
\<close>

definition controller_limit :: "int option \<Rightarrow> int" where
  "controller_limit parsed =
     min (case parsed of None \<Rightarrow> 10 | Some n \<Rightarrow> if n = 0 then 10 else n) 100"

definition controller_getTopPlayers :: "redis \<Rightarrow> int option \<Rightarrow> LeaderboardEntry list" where
  "controller_getTopPlayers r parsed = getTopPlayers r (controller_limit parsed)"

section \<open>The throttle engine: LeaderboardProcessingService\<close>

subsection \<open>generateChecksum\<close>

text \<open>
  \<^verbatim>\<open>leaderboard.map((entry) => `${entry.player_id}:${entry.score}`).join('|')\<close>, then the
  hex digest of its SHA-256. A score is rendered as JavaScript renders an integer (in
  decimal, with a minus sign when negative). The digest comes from Node's \<^verbatim>\<open>crypto\<close>
  module, outside the repository: it is the parameter \<open>H\<close>.
\<close>

definition digit_char :: "nat \<Rightarrow> char" where
  "digit_char d = ''0123456789'' ! d"

function show_nat :: "nat \<Rightarrow> string" where
  "show_nat n = (if n < 10 then [digit_char n] else show_nat (n div 10) @ [digit_char (n mod 10)])"
  by pat_completeness auto
termination
  by (relation "measure (\<lambda>n. n)") auto

definition show_int :: "int \<Rightarrow> string" where
  "show_int i = (if i < 0 then CHR ''-'' # show_nat (nat (- i)) else show_nat (nat i))"

fun join :: "string \<Rightarrow> string list \<Rightarrow> string" where
  "join sep [] = []"
| "join sep [x] = x"
| "join sep (x # y # ys) = x @ sep @ join sep (y # ys)"

definition checksum_data :: "LeaderboardEntry list \<Rightarrow> string" where
  "checksum_data lb = join ''|'' (map (\<lambda>entry. player_id entry @ '':'' @ show_int (score entry)) lb)"

definition generateChecksum :: "(string \<Rightarrow> string) \<Rightarrow> LeaderboardEntry list \<Rightarrow> string" where
  "generateChecksum H lb = H (checksum_data lb)"

subsection \<open>enhanceLeaderboardWithUserDetails\<close>

text \<open>
  The database lookup \<^verbatim>\<open>dbService.getUser\<close> (declared \<^verbatim>\<open>Promise<User | null>\<close>) is the
  parameter \<open>getUser\<close>; \<open>mock_getUser\<close> is the mock the repository ships, which finds a
  user for every id. \<^verbatim>\<open>user?.username || 'Unknown'\<close>: a missing user and an empty
  username both give the placeholder.
\<close>

definition mock_getUser :: "string \<Rightarrow> User option" where
  "mock_getUser userId = Some \<lparr>user_id = userId, user_username = ''user_'' @ take 8 userId\<rparr>"

fun enhanceLeaderboardWithUserDetails ::
  "(string \<Rightarrow> User option) \<Rightarrow> LeaderboardEntry list \<Rightarrow> redis
     \<Rightarrow> EnhancedLeaderboardEntry list \<times> redis" where
  "enhanceLeaderboardWithUserDetails getUser [] r = ([], r)"
| "enhanceLeaderboardWithUserDetails getUser (entry # rest) r =
     (let (user, r1) =
            (case getCachedUser r (player_id entry) of
               Some u \<Rightarrow> (Some u, r)
             | None \<Rightarrow>
                 (case getUser (player_id entry) of
                    Some u \<Rightarrow> (Some u, cacheUser r (player_id entry) u)
                  | None \<Rightarrow> (None, r)));
          name = (case user of
                    Some u \<Rightarrow> if user_username u = [] then ''Unknown'' else user_username u
                  | None \<Rightarrow> ''Unknown'');
          (enhanced, r2) = enhanceLeaderboardWithUserDetails getUser rest r1
      in (\<lparr>player_id = player_id entry, rank = rank entry, score = score entry,
            username = name\<rparr> # enhanced, r2))"

subsection \<open>findChangedRankings\<close>

record RankChange =
  ch_player_id :: string
  oldRank :: "nat option"
  newRank :: nat

text \<open>\<^verbatim>\<open>oldLeaderboard.forEach((entry) => oldRankMap.set(entry.player_id, entry.rank))\<close>\<close>

definition oldRankMap_set :: "(string \<rightharpoonup> nat) \<Rightarrow> LeaderboardEntry \<Rightarrow> (string \<rightharpoonup> nat)" where
  "oldRankMap_set m entry = m(player_id entry \<mapsto> rank entry)"

definition oldRankMap_of :: "LeaderboardEntry list \<Rightarrow> (string \<rightharpoonup> nat)" where
  "oldRankMap_of oldLeaderboard = foldl oldRankMap_set Map.empty oldLeaderboard"

text \<open>
  The loop over the new leaderboard. \<^verbatim>\<open>oldRankMap.get(id) || null\<close> is null for a
  missing id and for a stored rank 0.
\<close>

fun changes_loop :: "(string \<rightharpoonup> nat) \<Rightarrow> LeaderboardEntry list \<Rightarrow> RankChange list" where
  "changes_loop oldRankMap [] = []"
| "changes_loop oldRankMap (newEntry # rest) =
     (let old = (case oldRankMap (player_id newEntry) of
                   Some rk \<Rightarrow> if rk = 0 then None else Some rk
                 | None \<Rightarrow> None)
      in if old \<noteq> Some (rank newEntry)
         then \<lparr>ch_player_id = player_id newEntry, oldRank = old, newRank = rank newEntry\<rparr>
                # changes_loop oldRankMap rest
         else changes_loop oldRankMap rest)"

definition findChangedRankings ::
  "LeaderboardEntry list \<Rightarrow> LeaderboardEntry list \<Rightarrow> RankChange list" where
  "findChangedRankings oldLeaderboard newLeaderboard =
     changes_loop (oldRankMap_of oldLeaderboard) newLeaderboard"

text \<open>A participant's rank in a snapshot: that of its first row, none when it has no row.\<close>

fun rank_in :: "LeaderboardEntry list \<Rightarrow> string \<Rightarrow> nat option" where
  "rank_in [] p = None"
| "rank_in (e # es) p = (if player_id e = p then Some (rank e) else rank_in es p)"

subsection \<open>processLeaderboardChange\<close>

text \<open>
  The message is untyped in the source, and only \<^verbatim>\<open>message.timestamp\<close> is read:
  \<^verbatim>\<open>message.timestamp || Date.now()\<close> takes the clock when the field is missing or 0.
  The function returns the new Redis state and what it hands to
  \<^verbatim>\<open>kafkaService.publishLeaderboardUpdate\<close>, or \<open>None\<close> when it returns without
  publishing.
\<close>

record KafkaMessage =
  km_timestamp :: "int option"

record LeaderboardPublished =
  pub_leaderboard :: "EnhancedLeaderboardEntry list"
  pub_timestamp :: int
  pub_checksum :: string
  changedRankings :: "RankChange list"

definition currentTime_of :: "int \<Rightarrow> KafkaMessage \<Rightarrow> int" where
  "currentTime_of now message =
     (case km_timestamp message of Some t \<Rightarrow> if t = 0 then now else t | None \<Rightarrow> now)"

definition processLeaderboardChange ::
  "(string \<Rightarrow> string) \<Rightarrow> (string \<Rightarrow> User option) \<Rightarrow> int \<Rightarrow> int \<Rightarrow> KafkaMessage \<Rightarrow> redis
     \<Rightarrow> redis \<times> LeaderboardPublished option" where
  "processLeaderboardChange H getUser throttleDuration now message r =
     (let currentTime = currentTime_of now message;
          lastUpdateTime = getLastUpdateTimestamp r
      in if (case lastUpdateTime of
               Some l \<Rightarrow> currentTime - l < throttleDuration
             | None \<Rightarrow> False)
         then (r, None)
         else
           let top = getTopPlayers r 10;
               csum = generateChecksum H top;
               cachedLeaderboard = getCachedLeaderboard r
           in if (case cachedLeaderboard of Some c \<Rightarrow> checksum c = csum | None \<Rightarrow> False)
              then (r, None)
              else
                let (enhancedLeaderboard, r1) = enhanceLeaderboardWithUserDetails getUser top r;
                    leaderboardUpdate = \<lparr>top10 = top, timestamp = currentTime, checksum = csum\<rparr>;
                    r2 = cacheLeaderboard r1 leaderboardUpdate;
                    r3 = setLastUpdateTimestamp r2 currentTime;
                    changed = findChangedRankings
                                (case cachedLeaderboard of Some c \<Rightarrow> top10 c | None \<Rightarrow> []) top
                in (r3, Some \<lparr>pub_leaderboard = enhancedLeaderboard, pub_timestamp = currentTime,
                              pub_checksum = csum, changedRankings = changed\<rparr>))"

section \<open>The persistence queue: BatchSavingService and DatabaseService\<close>

text \<open>
  The sink and the dead letter file are the outside world of the service:
  \<open>save_calls\<close> counts the calls of \<^verbatim>\<open>saveBatch\<close> made so far, \<open>saved\<close> holds the batches
  the sink confirmed, \<open>dead_letter_file\<close> is the content of
  \<^verbatim>\<open>dead_letter_queue.json\<close> (\<open>None\<close> while the file does not exist), \<open>critical_log\<close> the
  batches reported by \<^verbatim>\<open>console.error('CRITICAL: Lost batch data:', ...)\<close> and
  \<open>sleeps\<close> the backoff delays waited. Which calls of \<^verbatim>\<open>saveBatch\<close> throw is the
  parameter \<open>sink_fails\<close> (by call number), whether the dead letter write throws is
  \<open>dlq_fails\<close>, and \<open>now\<close> is the clock's \<^verbatim>\<open>toISOString\<close>.
\<close>

record DeadLetterEntry =
  dl_timestamp :: string
  dl_count :: nat
  dl_submissions :: "ScoreSubmission list"

record sink_world =
  save_calls :: nat
  saved :: "ScoreSubmission list list"
  dead_letter_file :: "DeadLetterEntry list option"
  critical_log :: "ScoreSubmission list list"
  sleeps :: "nat list"

record BatchSavingService =
  batch :: "ScoreSubmission list"
  batchSize :: nat
  saveInProgress :: bool

definition maxRetries :: nat where
  "maxRetries = 3"

definition retryDelay :: nat where
  "retryDelay = 1000"

text \<open>\<^verbatim>\<open>DatabaseService.saveToDeadLetterQueue\<close>: read the queue, push one entry, write it back.\<close>

definition db_saveToDeadLetterQueue :: "string \<Rightarrow> ScoreSubmission list \<Rightarrow> sink_world \<Rightarrow> sink_world" where
  "db_saveToDeadLetterQueue now submissions w =
     (let entry = \<lparr>dl_timestamp = now, dl_count = length submissions, dl_submissions = submissions\<rparr>;
          queue = (case dead_letter_file w of Some q \<Rightarrow> q | None \<Rightarrow> [])
      in w\<lparr>dead_letter_file := Some (queue @ [entry])\<rparr>)"

text \<open>\<^verbatim>\<open>BatchSavingService.saveToDeadLetterQueue\<close>: the same under try/catch.\<close>

definition saveToDeadLetterQueue ::
  "bool \<Rightarrow> string \<Rightarrow> ScoreSubmission list \<Rightarrow> sink_world \<Rightarrow> sink_world" where
  "saveToDeadLetterQueue dlq_fails now b w =
     (if dlq_fails then w\<lparr>critical_log := critical_log w @ [b]\<rparr>
      else db_saveToDeadLetterQueue now b w)"

text \<open>The retry loop of \<^verbatim>\<open>flushBatch\<close>, from the values of \<open>attempt\<close> and \<open>success\<close>.\<close>

function flush_loop ::
  "(nat \<Rightarrow> bool) \<Rightarrow> bool \<Rightarrow> string \<Rightarrow> ScoreSubmission list \<Rightarrow> nat \<Rightarrow> bool \<Rightarrow> sink_world
     \<Rightarrow> sink_world" where
  "flush_loop sink_fails dlq_fails now batchToSave attempt success w =
     (if attempt < maxRetries \<and> \<not> success then
        (let w1 = w\<lparr>save_calls := save_calls w + 1\<rparr>
         in if \<not> sink_fails (save_calls w)
            then flush_loop sink_fails dlq_fails now batchToSave attempt True
                   (w1\<lparr>saved := saved w1 @ [batchToSave]\<rparr>)
            else if attempt + 1 < maxRetries
            then flush_loop sink_fails dlq_fails now batchToSave (attempt + 1) False
                   (w1\<lparr>sleeps := sleeps w1 @ [retryDelay * 2 ^ (attempt + 1 - 1)]\<rparr>)
            else flush_loop sink_fails dlq_fails now batchToSave (attempt + 1) False
                   (saveToDeadLetterQueue dlq_fails now batchToSave w1))
      else w)"
  by pat_completeness auto
termination
  by (relation "measure (\<lambda>(sf, df, now, b, attempt, success, w).
        2 * (maxRetries - attempt) + (if success then 0 else 1))") auto

definition flushBatch ::
  "(nat \<Rightarrow> bool) \<Rightarrow> bool \<Rightarrow> string \<Rightarrow> BatchSavingService \<times> sink_world
     \<Rightarrow> BatchSavingService \<times> sink_world" where
  "flushBatch sink_fails dlq_fails now sw =
     (let svc = fst sw; w = snd sw
      in if batch svc = [] \<or> saveInProgress svc then (svc, w)
         else
           let batchToSave = batch svc;
               svc1 = svc\<lparr>saveInProgress := True, batch := []\<rparr>;
               w1 = flush_loop sink_fails dlq_fails now batchToSave 0 False w
           in (svc1\<lparr>saveInProgress := False\<rparr>, w1))"

definition addToBatch ::
  "(nat \<Rightarrow> bool) \<Rightarrow> bool \<Rightarrow> string \<Rightarrow> ScoreSubmission \<Rightarrow> BatchSavingService \<times> sink_world
     \<Rightarrow> BatchSavingService \<times> sink_world" where
  "addToBatch sink_fails dlq_fails now submission sw =
     (let svc = (fst sw)\<lparr>batch := batch (fst sw) @ [submission]\<rparr>
      in if length (batch svc) \<ge> batchSize svc
         then flushBatch sink_fails dlq_fails now (svc, snd sw)
         else (svc, snd sw))"

definition forceFlush ::
  "(nat \<Rightarrow> bool) \<Rightarrow> bool \<Rightarrow> string \<Rightarrow> BatchSavingService \<times> sink_world
     \<Rightarrow> BatchSavingService \<times> sink_world" where
  "forceFlush sink_fails dlq_fails now sw =
     (if length (batch (fst sw)) > 0 then flushBatch sink_fails dlq_fails now sw else sw)"

section \<open>The broadcast hub: WebSocketService\<close>

text \<open>
  A connection is its identity, its \<^verbatim>\<open>readyState\<close> and whether \<^verbatim>\<open>send\<close> throws on it.
  \<^verbatim>\<open>clients\<close> is a JavaScript \<^verbatim>\<open>Set\<close>, iterated in insertion order: a list. Both loops
  delete at most the element being visited, so each visits every client registered at
  the start once. \<^verbatim>\<open>broadcast\<close> returns nothing; the model returns the registry it
  leaves and the two counters it logs. \<open>sendHeartbeat\<close> returns the registry it leaves
  and the connections it called \<^verbatim>\<open>send\<close> on.
\<close>

datatype readyState = CONNECTING | OPEN | CLOSING | CLOSED

record WebSocket =
  ws_id :: nat
  ws_readyState :: readyState
  send_throws :: bool

fun broadcast_loop ::
  "WebSocket list \<Rightarrow> WebSocket list \<times> nat \<times> nat \<Rightarrow> WebSocket list \<times> nat \<times> nat" where
  "broadcast_loop [] st = st"
| "broadcast_loop (client # rest) (clients, successCount, failCount) =
     (if ws_readyState client = OPEN then
        (if \<not> send_throws client
         then broadcast_loop rest (clients, successCount + 1, failCount)
         else broadcast_loop rest (clients, successCount, failCount + 1))
      else broadcast_loop rest (removeAll client clients, successCount, failCount + 1))"

definition broadcast :: "WebSocket list \<Rightarrow> WebSocket list \<times> nat \<times> nat" where
  "broadcast clients = broadcast_loop clients (clients, 0, 0)"

fun heartbeat_loop ::
  "WebSocket list \<Rightarrow> WebSocket list \<times> WebSocket list \<Rightarrow> WebSocket list \<times> WebSocket list" where
  "heartbeat_loop [] st = st"
| "heartbeat_loop (client # rest) (clients, targeted) =
     (if ws_readyState client = OPEN then
        (if \<not> send_throws client
         then heartbeat_loop rest (clients, targeted @ [client])
         else heartbeat_loop rest (removeAll client clients, targeted @ [client]))
      else heartbeat_loop rest (removeAll client clients, targeted))"

definition sendHeartbeat :: "WebSocket list \<Rightarrow> WebSocket list \<times> WebSocket list" where
  "sendHeartbeat clients = heartbeat_loop clients (clients, [])"

section \<open>Example data\<close>

abbreviation sub1 :: ScoreSubmission where
  "sub1 \<equiv> \<lparr>sub_player_id = ''p1'', sub_score = 7, sub_timestamp = ''t0''\<rparr>"

abbreviation sub2 :: ScoreSubmission where
  "sub2 \<equiv> \<lparr>sub_player_id = ''p2'', sub_score = 9, sub_timestamp = ''t0''\<rparr>"

abbreviation service1 :: BatchSavingService where
  "service1 \<equiv> \<lparr>batch = [sub1], batchSize = 100, saveInProgress = False\<rparr>"

abbreviation service2 :: BatchSavingService where
  "service2 \<equiv> \<lparr>batch = [sub1, sub2], batchSize = 2, saveInProgress = False\<rparr>"

abbreviation fresh_world :: sink_world where
  "fresh_world \<equiv>
     \<lparr>save_calls = 0, saved = [], dead_letter_file = None, critical_log = [], sleeps = []\<rparr>"

abbreviation ws1 :: WebSocket where
  "ws1 \<equiv> \<lparr>ws_id = 1, ws_readyState = OPEN, send_throws = False\<rparr>"

abbreviation ws2_throwing :: WebSocket where
  "ws2_throwing \<equiv> \<lparr>ws_id = 2, ws_readyState = OPEN, send_throws = True\<rparr>"

abbreviation ws2_closed :: WebSocket where
  "ws2_closed \<equiv> \<lparr>ws_id = 2, ws_readyState = CLOSED, send_throws = False\<rparr>"

abbreviation ws3 :: WebSocket where
  "ws3 \<equiv> \<lparr>ws_id = 3, ws_readyState = OPEN, send_throws = False\<rparr>"

section \<open>Properties of the ranked store\<close>

subsection \<open>The sorted set keeps its order and its members unique\<close>

lemma members_zRem: "fst ` set (zRem zs m) = fst ` set zs - {m}"
  by (auto simp: zRem_def)

lemma members_zAdd: "fst ` set (zAdd zs m s) = insert m (fst ` set zs)"
  by (auto simp: zAdd_def zRem_def set_insort_key)

lemma distinct_fst_insort:
  "distinct (map fst (insort_key f x xs)) = (fst x \<notin> fst ` set xs \<and> distinct (map fst xs))"
  by (induction xs) (auto simp: set_insort_key)

lemma zset_inv_zRem: "zset_inv zs \<Longrightarrow> zset_inv (zRem zs m)"
  by (simp add: zset_inv_def zRem_def sorted_filter distinct_map_filter)

lemma zset_inv_zAdd: "zset_inv zs \<Longrightarrow> zset_inv (zAdd zs m s)"
proof -
  assume "zset_inv zs"
  then have r: "zset_inv (zRem zs m)" by (rule zset_inv_zRem)
  have "m \<notin> fst ` set (zRem zs m)" by (simp add: members_zRem)
  with r show ?thesis
    by (simp add: zset_inv_def zAdd_def sorted_insort_key distinct_fst_insort)
qed

lemma zset_inv_foldl:
  "zset_inv (leaderboard r) \<Longrightarrow> zset_inv (leaderboard (foldl apply_store_op r ops))"
proof (induction ops arbitrary: r)
  case Nil
  then show ?case by simp
next
  case (Cons op ops)
  have "zset_inv (leaderboard (apply_store_op r op))"
    using Cons.prems
    by (cases op) (simp_all add: addScore_def removePlayer_def zset_inv_zAdd zset_inv_zRem)
  then show ?case using Cons.IH by simp
qed

lemma zset_inv_run_store: "zset_inv (leaderboard (run_store ops))"
  unfolding run_store_def
  by (rule zset_inv_foldl) (simp add: zset_inv_def empty_redis_def)

subsection \<open>Membership after a history\<close>

lemma index_of_None: "(index_of m es = None) = (m \<notin> fst ` set es)"
  by (induction es) auto

lemma getPlayerRank_None: "(getPlayerRank r p = None) = (p \<notin> fst ` set (leaderboard r))"
proof (cases "index_of p (rev (leaderboard r))")
  case None
  then show ?thesis
    using index_of_None [of p "rev (leaderboard r)"] by (simp add: getPlayerRank_def zRevRank_def)
next
  case (Some rk)
  then show ?thesis
    using index_of_None [of p "rev (leaderboard r)"] by (simp add: getPlayerRank_def zRevRank_def)
qed

lemma members_foldl:
  "(p \<in> fst ` set (leaderboard (foldl apply_store_op r ops))) =
     present_from (p \<in> fst ` set (leaderboard r)) p ops"
proof (induction ops arbitrary: r)
  case Nil
  then show ?case by simp
next
  case (Cons op ops)
  show ?case
  proof (cases op)
    case (Upsert q s)
    have "(p \<in> fst ` set (leaderboard (addScore r q s))) = (p \<in> fst ` set (leaderboard r) \<or> p = q)"
      unfolding addScore_def by (auto simp: members_zAdd)
    then show ?thesis using Cons.IH [of "addScore r q s"] Upsert by simp
  next
    case (Remove q)
    have "(p \<in> fst ` set (leaderboard (removePlayer r q))) = (p \<in> fst ` set (leaderboard r) \<and> p \<noteq> q)"
      unfolding removePlayer_def by (auto simp: members_zRem)
    then show ?thesis using Cons.IH [of "removePlayer r q"] Remove by simp
  qed
qed

lemma never_upserted_absent: "\<not> was_upserted p ops \<Longrightarrow> \<not> present_from False p ops"
  by (induction ops rule: was_upserted.induct) auto

text \<open>
  Claim C9, as the code has it: after any history of upserts and removes,
  \<^verbatim>\<open>getPlayerRank\<close> returns none exactly when the participant is not a member at that
  moment, that is when it was never upserted or was removed after its last upsert.
\<close>

theorem rankOf_none_iff_not_member:
  "(getPlayerRank (run_store ops) p = None) = (\<not> present_from False p ops)"
  by (simp add: getPlayerRank_None run_store_def members_foldl empty_redis_def)

text \<open>
  Claim C9 as stated fails: a participant that was upserted and then removed has no
  rank, although it did submit a score.
\<close>

theorem rankOf_after_remove_counterexample:
  "was_upserted ''a'' [Upsert ''a'' 10, Remove ''a''] \<and>
   getPlayerRank (run_store [Upsert ''a'' 10, Remove ''a'']) ''a'' = None"
  by code_simp

subsection \<open>Snapshots\<close>

lemma length_map_index: "length (map_index k rs) = length rs"
  by (induction k rs rule: map_index.induct) auto

lemma nth_map_index:
  "i < length rs \<Longrightarrow>
     map_index k rs ! i = \<lparr>player_id = fst (rs ! i), rank = k + i + 1, score = snd (rs ! i)\<rparr>"
proof (induction k rs arbitrary: i rule: map_index.induct)
  case (1 index)
  then show ?case by simp
next
  case (2 index m s rs)
  then show ?case by (cases i) auto
qed

lemma zRangeRev_0:
  "zRangeRev zs 0 stop =
     take (nat ((if stop < 0 then int (length zs) + stop else stop) + 1)) (rev zs)"
  by (simp add: zRangeRev_def Let_def)

lemma zkey_inj: "zkey a = zkey b \<Longrightarrow> a = b"
  by (cases a; cases b) simp

lemma zset_inv_strict: "zset_inv zs \<Longrightarrow> sorted_wrt (\<lambda>a b. zkey a < zkey b) zs"
proof -
  assume inv: "zset_inv zs"
  have "inj_on zkey (set zs)"
    by (rule inj_onI) (rule zkey_inj)
  moreover have "distinct zs" using inv by (simp add: zset_inv_def distinct_map)
  ultimately have "distinct (map zkey zs)" by (simp add: distinct_map)
  with inv have "sorted_wrt (<) (map zkey zs)" by (simp add: zset_inv_def strict_sorted_iff)
  then show ?thesis by (simp add: sorted_wrt_map)
qed

lemma zRangeRev_descending:
  assumes "zset_inv zs"
  shows "sorted_wrt (\<lambda>a b. zkey b < zkey a) (zRangeRev zs 0 stop)"
proof -
  have "sorted_wrt (\<lambda>a b. zkey b < zkey a) (rev zs)"
    using zset_inv_strict [OF assms] by (simp add: sorted_wrt_rev)
  then show ?thesis unfolding zRangeRev_0 by (rule sorted_wrt_take)
qed

lemma zkey_less: "(zkey b < zkey a) = (snd b < snd a \<or> snd b = snd a \<and> fst b < fst a)"
  by (cases a; cases b) (auto simp: less_prod_def)

lemma map_index_order:
  assumes desc: "sorted_wrt (\<lambda>a b. zkey b < zkey a) rs" and i: "Suc i < length rs"
  shows "rank (map_index 0 rs ! i) < rank (map_index 0 rs ! Suc i) \<and>
      score (map_index 0 rs ! Suc i) \<le> score (map_index 0 rs ! i) \<and>
      (score (map_index 0 rs ! Suc i) = score (map_index 0 rs ! i) \<longrightarrow>
         player_id (map_index 0 rs ! Suc i) < player_id (map_index 0 rs ! i))"
proof -
  have i': "i < length rs" using i by simp
  have "zkey (rs ! Suc i) < zkey (rs ! i)"
    using sorted_wrt_nth_less [OF desc, of i "Suc i"] i by simp
  then have "snd (rs ! Suc i) < snd (rs ! i) \<or>
      snd (rs ! Suc i) = snd (rs ! i) \<and> fst (rs ! Suc i) < fst (rs ! i)"
    by (simp add: zkey_less)
  then show ?thesis
    by (auto simp: nth_map_index [OF i] nth_map_index [OF i'])
qed

text \<open>
  Claim C1, as the code has it: in every snapshot \<^verbatim>\<open>getTopPlayers\<close> returns, after any
  history of the store and for any count, the rank of the row at position \<open>i\<close> is
  \<open>i + 1\<close>, ranks increase strictly and scores do not increase from one row to the
  next, and two neighbouring rows of equal score are in descending order of
  \<open>player_id\<close>; and after upserting (alice, 1000), (bob, 2000), (carol, 1500) the top 10
  is bob:1:2000, carol:2:1500, alice:3:1000.
\<close>

theorem top_snapshot_order:
  "(\<forall>i < length (getTopPlayers (run_store ops) k).
      rank (getTopPlayers (run_store ops) k ! i) = i + 1) \<and>
   (\<forall>i. Suc i < length (getTopPlayers (run_store ops) k) \<longrightarrow>
      rank (getTopPlayers (run_store ops) k ! i) < rank (getTopPlayers (run_store ops) k ! Suc i) \<and>
      score (getTopPlayers (run_store ops) k ! Suc i) \<le> score (getTopPlayers (run_store ops) k ! i) \<and>
      (score (getTopPlayers (run_store ops) k ! Suc i) = score (getTopPlayers (run_store ops) k ! i) \<longrightarrow>
         player_id (getTopPlayers (run_store ops) k ! Suc i)
           < player_id (getTopPlayers (run_store ops) k ! i))) \<and>
   getTopPlayers (run_store [Upsert ''alice'' 1000, Upsert ''bob'' 2000, Upsert ''carol'' 1500]) 10 =
     [\<lparr>player_id = ''bob'', rank = 1, score = 2000\<rparr>,
      \<lparr>player_id = ''carol'', rank = 2, score = 1500\<rparr>,
      \<lparr>player_id = ''alice'', rank = 3, score = 1000\<rparr>]"
proof -
  define rs where "rs = zRangeRev (leaderboard (run_store ops)) 0 (k - 1)"
  have top: "getTopPlayers (run_store ops) k = map_index 0 rs"
    by (simp add: getTopPlayers_def rs_def)
  have desc: "sorted_wrt (\<lambda>a b. zkey b < zkey a) rs"
    unfolding rs_def by (rule zRangeRev_descending) (rule zset_inv_run_store)
  have ranks: "\<forall>i < length (map_index 0 rs). rank (map_index 0 rs ! i) = i + 1"
    by (simp add: length_map_index nth_map_index)
  have steps: "\<forall>i. Suc i < length (map_index 0 rs) \<longrightarrow>
      rank (map_index 0 rs ! i) < rank (map_index 0 rs ! Suc i) \<and>
      score (map_index 0 rs ! Suc i) \<le> score (map_index 0 rs ! i) \<and>
      (score (map_index 0 rs ! Suc i) = score (map_index 0 rs ! i) \<longrightarrow>
         player_id (map_index 0 rs ! Suc i) < player_id (map_index 0 rs ! i))"
    using map_index_order [OF desc] by (simp add: length_map_index)
  have example:
    "getTopPlayers (run_store [Upsert ''alice'' 1000, Upsert ''bob'' 2000, Upsert ''carol'' 1500]) 10 =
     [\<lparr>player_id = ''bob'', rank = 1, score = 2000\<rparr>,
      \<lparr>player_id = ''carol'', rank = 2, score = 1500\<rparr>,
      \<lparr>player_id = ''alice'', rank = 3, score = 1000\<rparr>]"
    by code_simp
  show ?thesis unfolding top using ranks steps example by simp
qed

text \<open>Claim C1 at a store with a tie: both rows are there and the tie is in descending order.\<close>

theorem top_snapshot_order_witness:
  "Suc 0 < length (getTopPlayers (run_store [Upsert ''a'' 100, Upsert ''b'' 100]) 10) \<and>
   score (getTopPlayers (run_store [Upsert ''a'' 100, Upsert ''b'' 100]) 10 ! Suc 0) =
     score (getTopPlayers (run_store [Upsert ''a'' 100, Upsert ''b'' 100]) 10 ! 0) \<and>
   player_id (getTopPlayers (run_store [Upsert ''a'' 100, Upsert ''b'' 100]) 10 ! Suc 0)
     < player_id (getTopPlayers (run_store [Upsert ''a'' 100, Upsert ''b'' 100]) 10 ! 0)"
proof -
  have top: "getTopPlayers (run_store [Upsert ''a'' 100, Upsert ''b'' 100]) 10 =
     [\<lparr>player_id = ''b'', rank = 1, score = 100\<rparr>, \<lparr>player_id = ''a'', rank = 2, score = 100\<rparr>]"
    by code_simp
  show ?thesis
    using top_snapshot_order [of "[Upsert ''a'' 100, Upsert ''b'' 100]" 10]
    unfolding top by simp
qed

text \<open>
  Claim C1 as stated fails on ties: with a and b both at 100, b is ranked before a,
  and b is not below a in the order of participant ids.
\<close>

theorem top_ties_counterexample:
  "getTopPlayers (run_store [Upsert ''a'' 100, Upsert ''b'' 100]) 10 =
     [\<lparr>player_id = ''b'', rank = 1, score = 100\<rparr>, \<lparr>player_id = ''a'', rank = 2, score = 100\<rparr>] \<and>
   \<not> ''b'' < ''a''"
  by code_simp

subsection \<open>The size of a snapshot\<close>

lemma length_getTopPlayers:
  "length (getTopPlayers r k) =
     min (nat (if k - 1 < 0 then int (length (leaderboard r)) + (k - 1) + 1 else k)) (length (leaderboard r))"
  by (auto simp: getTopPlayers_def length_map_index zRangeRev_0 min_def)

text \<open>
  Claim C4, as the code has it: for a limit \<open>k \<ge> 1\<close> the handler asks for \<open>min k 100\<close>
  rows, so the snapshot has \<open>min (min k 100) size\<close> rows and never more than 100; a
  limit of 0, like a missing one, is replaced by the default 10.
\<close>

theorem top_clamped:
  "(1 \<le> k \<longrightarrow>
      length (controller_getTopPlayers r (Some k)) = min (nat (min k 100)) (length (leaderboard r)) \<and>
      length (controller_getTopPlayers r (Some k)) \<le> 100) \<and>
   controller_getTopPlayers r (Some 0) = getTopPlayers r 10 \<and>
   controller_getTopPlayers r None = getTopPlayers r 10"
  by (auto simp: controller_getTopPlayers_def controller_limit_def length_getTopPlayers min_def)

text \<open>Claim C4 at the limit 500 on a store of two participants.\<close>

theorem top_clamped_witness:
  "(1::int) \<le> 500 \<and>
   length (controller_getTopPlayers (run_store [Upsert ''a'' 3, Upsert ''b'' 4]) (Some 500)) = 2"
  using top_clamped [of 500 "run_store [Upsert ''a'' 3, Upsert ''b'' 4]"]
  by (simp add: run_store_def empty_redis_def addScore_def zAdd_def zRem_def)

text \<open>
  Claim C4 as stated fails at \<open>k = 0\<close>: the handler answers with the top 10 of a store
  of one participant, which is not empty (and \<^verbatim>\<open>RedisService.getTopPlayers(0)\<close> itself
  asks Redis for the range 0 to -1, the whole set).
\<close>

theorem top_zero_counterexample:
  "controller_getTopPlayers (run_store [Upsert ''a'' 1]) (Some 0) =
     [\<lparr>player_id = ''a'', rank = 1, score = 1\<rparr>] \<and>
   getTopPlayers (run_store [Upsert ''a'' 1]) 0 = [\<lparr>player_id = ''a'', rank = 1, score = 1\<rparr>]"
  by code_simp

text \<open>
  A negative limit passes the \<^verbatim>\<open>Math.min\<close> and reaches Redis as a negative stop index:
  the answer is the whole set but its last \<open>- k\<close> rows, whatever its size.
\<close>

lemma top_negative_length:
  "k < 0 \<Longrightarrow>
     length (controller_getTopPlayers r (Some k)) = length (leaderboard r) - nat (- k)"
  by (auto simp: controller_getTopPlayers_def controller_limit_def length_getTopPlayers)

section \<open>Properties of the throttle engine\<close>

subsection \<open>Changed rankings\<close>

lemma oldRankMap_set_apply:
  "oldRankMap_set m entry p = (if p = player_id entry then Some (rank entry) else m p)"
  by (simp add: oldRankMap_set_def)

lemma oldRankMap_absent:
  "p \<notin> player_id ` set xs \<Longrightarrow> foldl oldRankMap_set m xs p = m p"
proof (induction xs arbitrary: m)
  case Nil
  then show ?case by simp
next
  case (Cons x xs)
  have "foldl oldRankMap_set (oldRankMap_set m x) xs p = oldRankMap_set m x p"
    using Cons.prems by (intro Cons.IH) simp
  also have "\<dots> = m p"
    using Cons.prems by (simp add: oldRankMap_set_apply)
  finally show ?case by simp
qed

lemma oldRankMap_foldl:
  "distinct (map player_id xs) \<Longrightarrow>
     foldl oldRankMap_set m xs p = (case rank_in xs p of Some rk \<Rightarrow> Some rk | None \<Rightarrow> m p)"
proof (induction xs arbitrary: m)
  case Nil
  then show ?case by simp
next
  case (Cons x xs)
  have step: "foldl oldRankMap_set m (x # xs) p = foldl oldRankMap_set (oldRankMap_set m x) xs p"
    by simp
  show ?case
  proof (cases "player_id x = p")
    case True
    then have "p \<notin> player_id ` set xs" using Cons.prems by auto
    then have "foldl oldRankMap_set (oldRankMap_set m x) xs p = oldRankMap_set m x p"
      by (rule oldRankMap_absent)
    also have "\<dots> = Some (rank x)"
      using True by (simp add: oldRankMap_set_apply)
    finally show ?thesis unfolding step using True by simp
  next
    case False
    have "foldl oldRankMap_set (oldRankMap_set m x) xs p =
        (case rank_in xs p of Some rk \<Rightarrow> Some rk | None \<Rightarrow> oldRankMap_set m x p)"
      using Cons.prems by (intro Cons.IH) simp
    moreover have "oldRankMap_set m x p = m p"
      using False by (simp add: oldRankMap_set_apply)
    ultimately show ?thesis unfolding step using False by (simp split: option.split)
  qed
qed

lemma oldRankMap_of_rank_in:
  "distinct (map player_id old) \<Longrightarrow> oldRankMap_of old p = rank_in old p"
  by (simp add: oldRankMap_of_def oldRankMap_foldl split: option.splits)

lemma rank_in_positive:
  "\<forall>e \<in> set old. rank e \<noteq> 0 \<Longrightarrow> rank_in old p = Some rk \<Longrightarrow> rk \<noteq> 0"
  by (induction old) (auto split: if_splits)

lemma changes_loop_filter:
  assumes "\<And>p. m p = rank_in old p" and "\<forall>e \<in> set old. rank e \<noteq> 0"
  shows "changes_loop m new =
     map (\<lambda>e. \<lparr>ch_player_id = player_id e, oldRank = rank_in old (player_id e), newRank = rank e\<rparr>)
       (filter (\<lambda>e. rank_in old (player_id e) \<noteq> Some (rank e)) new)"
proof (induction new)
  case Nil
  then show ?case by simp
next
  case (Cons e es)
  have old: "(case m (player_id e) of Some rk \<Rightarrow> if rk = 0 then None else Some rk | None \<Rightarrow> None)
      = rank_in old (player_id e)"
    using rank_in_positive [OF assms(2), of "player_id e"]
    by (cases "rank_in old (player_id e)") (simp_all add: assms(1))
  show ?case using Cons by (simp add: old Let_def)
qed

lemma changes_loop_ids: "ch_player_id ` set (changes_loop m new) \<subseteq> player_id ` set new"
  by (induction new) (auto simp: Let_def)

text \<open>
  Claim C3, as the code has it: against a previous snapshot (distinct participants,
  ranks from 1, as every snapshot has them), the changed list is, in the order of the
  current snapshot, exactly the rows of the current snapshot whose rank differs from
  the participant's rank in the previous one, a new entrant having old rank none; no
  row with an unchanged rank is listed, and nobody outside the current snapshot is.
\<close>

theorem changed_lists_current_rows:
  assumes "distinct (map player_id old)" and "\<forall>e \<in> set old. rank e \<noteq> 0"
  shows "findChangedRankings old new =
     map (\<lambda>e. \<lparr>ch_player_id = player_id e, oldRank = rank_in old (player_id e), newRank = rank e\<rparr>)
       (filter (\<lambda>e. rank_in old (player_id e) \<noteq> Some (rank e)) new) \<and>
     ch_player_id ` set (findChangedRankings old new) \<subseteq> player_id ` set new"
proof -
  have m: "oldRankMap_of old p = rank_in old p" for p
    using assms(1) by (rule oldRankMap_of_rank_in)
  have rows: "changes_loop (oldRankMap_of old) new =
     map (\<lambda>e. \<lparr>ch_player_id = player_id e, oldRank = rank_in old (player_id e), newRank = rank e\<rparr>)
       (filter (\<lambda>e. rank_in old (player_id e) \<noteq> Some (rank e)) new)"
    using m assms(2) by (rule changes_loop_filter)
  have ids: "ch_player_id ` set (changes_loop (oldRankMap_of old) new) \<subseteq> player_id ` set new"
    by (rule changes_loop_ids)
  show ?thesis unfolding findChangedRankings_def by (intro conjI) (rule rows, rule ids)
qed

text \<open>Claim C3 at a snapshot where c enters at rank 1 and pushes a and b down.\<close>

theorem changed_lists_current_rows_witness:
  "distinct (map player_id [\<lparr>player_id = ''a'', rank = 1, score = 10\<rparr>,
                            \<lparr>player_id = ''b'', rank = 2, score = 5\<rparr>]) \<and>
   rank \<lparr>player_id = ''a'', rank = 1, score = 10\<rparr> \<noteq> 0 \<and>
   rank \<lparr>player_id = ''b'', rank = 2, score = 5\<rparr> \<noteq> 0 \<and>
   findChangedRankings
     [\<lparr>player_id = ''a'', rank = 1, score = 10\<rparr>, \<lparr>player_id = ''b'', rank = 2, score = 5\<rparr>]
     [\<lparr>player_id = ''c'', rank = 1, score = 20\<rparr>, \<lparr>player_id = ''a'', rank = 2, score = 10\<rparr>,
      \<lparr>player_id = ''b'', rank = 3, score = 5\<rparr>] =
     [\<lparr>ch_player_id = ''c'', oldRank = None, newRank = 1\<rparr>,
      \<lparr>ch_player_id = ''a'', oldRank = Some 1, newRank = 2\<rparr>,
      \<lparr>ch_player_id = ''b'', oldRank = Some 2, newRank = 3\<rparr>]"
proof -
  have d: "distinct (map player_id [\<lparr>player_id = ''a'', rank = 1, score = 10\<rparr>,
                            \<lparr>player_id = ''b'', rank = 2, score = 5\<rparr>])"
    by simp
  have p: "\<forall>e \<in> set [\<lparr>player_id = ''a'', rank = 1, score = 10\<rparr>,
               \<lparr>player_id = ''b'', rank = 2, score = 5\<rparr>]. rank e \<noteq> 0"
    by simp
  show ?thesis
    using d p changed_lists_current_rows [OF d p,
      of "[\<lparr>player_id = ''c'', rank = 1, score = 20\<rparr>, \<lparr>player_id = ''a'', rank = 2, score = 10\<rparr>,
      \<lparr>player_id = ''b'', rank = 3, score = 5\<rparr>]"]
    by simp
qed

text \<open>
  Claim C3 as stated fails for a participant that leaves the snapshot: a had rank 1
  and has none now, and the changed list holds only the new entrant b.
\<close>

theorem changed_omits_dropped_counterexample:
  "findChangedRankings
     [\<lparr>player_id = ''a'', rank = 1, score = 10\<rparr>]
     [\<lparr>player_id = ''b'', rank = 1, score = 20\<rparr>] =
     [\<lparr>ch_player_id = ''b'', oldRank = None, newRank = 1\<rparr>] \<and>
   rank_in [\<lparr>player_id = ''a'', rank = 1, score = 10\<rparr>] ''a'' = Some 1 \<and>
   rank_in [\<lparr>player_id = ''b'', rank = 1, score = 20\<rparr>] ''a'' = None"
  by (simp add: findChangedRankings_def oldRankMap_of_def oldRankMap_set_apply)

text \<open>Every snapshot of the store has distinct participants and ranks from 1.\<close>

lemma map_index_ids: "map player_id (map_index k rs) = map fst rs"
  by (induction k rs rule: map_index.induct) auto

lemma map_index_ranks: "e \<in> set (map_index k rs) \<Longrightarrow> rank e \<noteq> 0"
  by (induction k rs rule: map_index.induct) auto

lemma snapshot_wellformed:
  assumes "zset_inv (leaderboard r)"
  shows "distinct (map player_id (getTopPlayers r k)) \<and> (\<forall>e \<in> set (getTopPlayers r k). rank e \<noteq> 0)"
proof -
  have "distinct (map fst (rev (leaderboard r)))"
    using assms by (simp add: zset_inv_def rev_map [symmetric])
  then have "distinct (take n (map fst (rev (leaderboard r))))" for n
    by (rule distinct_take)
  then have "distinct (map fst (zRangeRev (leaderboard r) 0 (k - 1)))"
    by (simp add: zRangeRev_0 take_map)
  then show ?thesis
    by (auto simp: getTopPlayers_def map_index_ids dest: map_index_ranks)
qed

subsection \<open>Enrichment\<close>

lemma enhance_fields:
  "map (\<lambda>e. (player_id e, rank e, score e)) (fst (enhanceLeaderboardWithUserDetails getUser lb r)) =
     map (\<lambda>e. (player_id e, rank e, score e)) lb"
  by (induction lb arbitrary: r) (simp_all add: Let_def case_prod_beta)

lemma enhance_length: "length (fst (enhanceLeaderboardWithUserDetails getUser lb r)) = length lb"
  using arg_cong [OF enhance_fields, of length getUser lb r] by simp

lemma enhance_leaderboard:
  "leaderboard (snd (enhanceLeaderboardWithUserDetails getUser lb r)) = leaderboard r"
  by (induction lb arbitrary: r)
    (simp_all add: Let_def case_prod_beta cacheUser_def split: option.splits)

lemma enhance_unknown:
  "i < length lb \<Longrightarrow> getCachedUser r (player_id (lb ! i)) = None \<Longrightarrow>
     getUser (player_id (lb ! i)) = None \<Longrightarrow>
     username (fst (enhanceLeaderboardWithUserDetails getUser lb r) ! i) = ''Unknown''"
proof (induction lb arbitrary: r i)
  case Nil
  then show ?case by simp
next
  case (Cons entry rest)
  define r1 where "r1 = snd (case getCachedUser r (player_id entry) of
               Some u \<Rightarrow> (Some u, r)
             | None \<Rightarrow>
                 (case getUser (player_id entry) of
                    Some u \<Rightarrow> (Some u, cacheUser r (player_id entry) u)
                  | None \<Rightarrow> (None, r)))"
  show ?case
  proof (cases i)
    case 0
    then show ?thesis using Cons.prems
      by (simp add: Let_def case_prod_beta)
  next
    case (Suc j)
    have miss: "getCachedUser r1 (player_id (rest ! j)) = None"
      using Cons.prems Suc unfolding r1_def
      by (auto simp: getCachedUser_def cacheUser_def split: option.splits)
    have "username (fst (enhanceLeaderboardWithUserDetails getUser rest r1) ! j) = ''Unknown''"
      using Cons.prems Suc miss by (intro Cons.IH) simp_all
    then show ?thesis using Suc unfolding r1_def
      by (simp add: Let_def case_prod_beta)
  qed
qed

text \<open>
  Claim C10: for every snapshot, whatever the cache holds and whatever the database
  lookup answers, the enriched list has the same length and the same \<open>player_id\<close>,
  \<open>rank\<close> and \<open>score\<close> row by row, in the same order; and a row for which neither the
  user cache nor the database lookup yields a user gets the username \<open>Unknown\<close>.
\<close>

theorem enhance_preserves_rows:
  "length (fst (enhanceLeaderboardWithUserDetails getUser lb r)) = length lb \<and>
   map (\<lambda>e. (player_id e, rank e, score e)) (fst (enhanceLeaderboardWithUserDetails getUser lb r)) =
     map (\<lambda>e. (player_id e, rank e, score e)) lb \<and>
   (\<forall>i < length lb.
      getCachedUser r (player_id (lb ! i)) = None \<and> getUser (player_id (lb ! i)) = None \<longrightarrow>
      username (fst (enhanceLeaderboardWithUserDetails getUser lb r) ! i) = ''Unknown'')"
  by (simp add: enhance_length enhance_fields enhance_unknown)

text \<open>Claim C10 at a one-row snapshot with an empty cache and a database that finds nobody.\<close>

theorem enhance_preserves_rows_witness:
  "(0::nat) < length [\<lparr>player_id = ''p1'', rank = 1, score = 50\<rparr>] \<and>
   getCachedUser empty_redis ''p1'' = None \<and>
   fst (enhanceLeaderboardWithUserDetails (\<lambda>p. None)
          [\<lparr>player_id = ''p1'', rank = 1, score = 50\<rparr>] empty_redis) =
     [\<lparr>player_id = ''p1'', rank = 1, score = 50, username = ''Unknown''\<rparr>]"
  using enhance_preserves_rows [of "\<lambda>p. None" "[\<lparr>player_id = ''p1'', rank = 1, score = 50\<rparr>]" empty_redis]
  by (simp add: getCachedUser_def empty_redis_def)

subsection \<open>The checksum\<close>

text \<open>Decimal rendering is injective, and so is the joined string in each row.\<close>

declare show_nat.simps [simp del]

lemma digit_char_inj: "d < 10 \<Longrightarrow> d' < 10 \<Longrightarrow> digit_char d = digit_char d' \<Longrightarrow> d = d'"
proof -
  assume d: "d < 10" and d': "d' < 10" and eq: "digit_char d = digit_char d'"
  have "distinct ''0123456789''" by simp
  moreover have "d < length ''0123456789''" "d' < length ''0123456789''" using d d' by simp_all
  ultimately show "d = d'" using eq unfolding digit_char_def
    by (simp only: nth_eq_iff_index_eq)
qed

lemma digit_char_digit: "d < 10 \<Longrightarrow> digit_char d \<in> set ''0123456789''"
  unfolding digit_char_def by (rule nth_mem) simp

lemma show_nat_nonempty: "show_nat n \<noteq> []"
  by (subst show_nat.simps) simp

lemma show_nat_digits: "set (show_nat n) \<subseteq> set ''0123456789''"
proof (induction n rule: show_nat.induct)
  case (1 n)
  show ?case
  proof (cases "n < 10")
    case True
    then show ?thesis using digit_char_digit [of n] by (subst show_nat.simps) simp
  next
    case False
    then show ?thesis using 1 digit_char_digit [of "n mod 10"]
      by (subst show_nat.simps) simp
  qed
qed

lemma show_nat_inj: "show_nat n = show_nat m \<Longrightarrow> n = m"
proof (induction n arbitrary: m rule: show_nat.induct)
  case (1 n)
  show ?case
  proof (cases "n < 10")
    case n: True
    show ?thesis
    proof (cases "m < 10")
      case True
      then show ?thesis using n "1.prems"
        by (simp add: show_nat.simps [of n] show_nat.simps [of m] digit_char_inj)
    next
      case False
      then show ?thesis using n "1.prems" show_nat_nonempty [of "m div 10"]
        by (simp add: show_nat.simps [of n] show_nat.simps [of m])
    qed
  next
    case n: False
    show ?thesis
    proof (cases "m < 10")
      case True
      then show ?thesis using n "1.prems" show_nat_nonempty [of "n div 10"]
        by (simp add: show_nat.simps [of n] show_nat.simps [of m])
    next
      case False
      then have "show_nat (n div 10) = show_nat (m div 10)" "digit_char (n mod 10) = digit_char (m mod 10)"
        using n "1.prems" by (simp_all add: show_nat.simps [of n] show_nat.simps [of m])
      then have "n div 10 = m div 10" "n mod 10 = m mod 10"
        using "1.IH" [OF n] digit_char_inj [of "n mod 10" "m mod 10"] by simp_all
      then show ?thesis by (metis div_mult_mod_eq)
    qed
  qed
qed

lemma show_nat_no_minus: "show_nat n \<noteq> CHR ''-'' # s"
proof
  assume "show_nat n = CHR ''-'' # s"
  then have "CHR ''-'' \<in> set (show_nat n)" by simp
  then have "CHR ''-'' \<in> set ''0123456789''" using show_nat_digits by blast
  then show False by simp
qed

lemma show_int_inj: "show_int i = show_int j \<Longrightarrow> i = j"
proof -
  assume eq: "show_int i = show_int j"
  consider "i < 0" "j < 0" | "i < 0" "\<not> j < 0" | "\<not> i < 0" "j < 0" | "\<not> i < 0" "\<not> j < 0"
    by blast
  then show ?thesis
  proof cases
    case 1
    then have "nat (- i) = nat (- j)" using eq by (simp add: show_int_def show_nat_inj)
    then show ?thesis using 1 by simp
  next
    case 2
    then show ?thesis using eq [symmetric] show_nat_no_minus [of "nat j"] by (simp add: show_int_def)
  next
    case 3
    then show ?thesis using eq show_nat_no_minus [of "nat i"] by (simp add: show_int_def)
  next
    case 4
    then have "nat i = nat j" using eq by (simp add: show_int_def show_nat_inj)
    then show ?thesis using 4 by simp
  qed
qed

lemma join_update_inj:
  "i < length rows \<Longrightarrow> (join sep (rows[i := x]) = join sep (rows[i := y])) = (x = y)"
proof (induction sep rows arbitrary: i rule: join.induct)
  case (1 sep)
  then show ?case by simp
next
  case (2 sep r)
  then show ?case by simp
next
  case (3 sep r r' rs)
  show ?case
  proof (cases i)
    case 0
    then show ?thesis by simp
  next
    case (Suc j)
    then have j: "j < length (r' # rs)" using "3.prems" by simp
    obtain a as where a: "(r' # rs)[j := x] = a # as" by (cases j) auto
    obtain b bs where b: "(r' # rs)[j := y] = b # bs" by (cases j) auto
    have "(join sep (r # (r' # rs)[j := x]) = join sep (r # (r' # rs)[j := y])) =
        (join sep ((r' # rs)[j := x]) = join sep ((r' # rs)[j := y]))"
      unfolding a b by simp
    then show ?thesis using "3.IH" [OF j] Suc by simp
  qed
qed

lemma checksum_data_pairs:
  "checksum_data lb =
     join ''|'' (map (\<lambda>(p, s). p @ '':'' @ show_int s) (map (\<lambda>e. (player_id e, score e)) lb))"
  by (simp add: checksum_data_def comp_def)

lemma checksum_data_score_change:
  assumes "i < length lb" and "s \<noteq> score (lb ! i)"
  shows "checksum_data (lb[i := (lb ! i)\<lparr>score := s\<rparr>]) \<noteq> checksum_data lb"
proof -
  let ?row = "\<lambda>entry. player_id entry @ '':'' @ show_int (score entry)"
  have i: "i < length (map ?row lb)" using assms(1) by simp
  have new: "map ?row (lb[i := (lb ! i)\<lparr>score := s\<rparr>]) = (map ?row lb)[i := ?row ((lb ! i)\<lparr>score := s\<rparr>)]"
    by (rule map_update)
  have old: "(map ?row lb)[i := ?row (lb ! i)] = map ?row lb"
    using assms(1) by (simp add: list_update_same_conv)
  have "?row ((lb ! i)\<lparr>score := s\<rparr>) \<noteq> ?row (lb ! i)"
    using assms(2) show_int_inj [of s "score (lb ! i)"] by auto
  then have "join ''|'' ((map ?row lb)[i := ?row ((lb ! i)\<lparr>score := s\<rparr>)])
      \<noteq> join ''|'' ((map ?row lb)[i := ?row (lb ! i)])"
    using join_update_inj [OF i] by blast
  then show ?thesis unfolding checksum_data_def new old .
qed

text \<open>
  What holds of the checksum for every digest \<open>H\<close>, the real SHA-256 included: it is
  the digest of a string built from the ordered (\<open>player_id\<close>, \<open>score\<close>) pairs alone, so
  two snapshots with the same pairs in the same order have the same checksum (ranks and
  time play no part); and after replacing one score by a different one, an unchanged
  checksum is a collision of the digest on two different strings. Whether SHA-256 has
  such a collision is not decided here.
\<close>

lemma generateChecksum_same_pairs:
  "map (\<lambda>e. (player_id e, score e)) xs = map (\<lambda>e. (player_id e, score e)) ys \<Longrightarrow>
     generateChecksum H xs = generateChecksum H ys"
proof -
  assume "map (\<lambda>e. (player_id e, score e)) xs = map (\<lambda>e. (player_id e, score e)) ys"
  then have "checksum_data xs = checksum_data ys" by (simp only: checksum_data_pairs)
  then show ?thesis by (simp add: generateChecksum_def)
qed

lemma generateChecksum_unchanged_is_collision:
  assumes "i < length xs" and "s \<noteq> score (xs ! i)"
    and "generateChecksum H (xs[i := (xs ! i)\<lparr>score := s\<rparr>]) = generateChecksum H xs"
  shows "checksum_data (xs[i := (xs ! i)\<lparr>score := s\<rparr>]) \<noteq> checksum_data xs \<and>
     H (checksum_data (xs[i := (xs ! i)\<lparr>score := s\<rparr>])) = H (checksum_data xs)"
  using checksum_data_score_change [OF assms(1,2)] assms(3)
  by (simp add: generateChecksum_def)

subsection \<open>The two gates\<close>

lemma process_throttled:
  "last_update r = Some l \<Longrightarrow> currentTime_of now message - l < W \<Longrightarrow>
     processLeaderboardChange H getUser W now message r = (r, None)"
  by (simp add: processLeaderboardChange_def getLastUpdateTimestamp_def)

lemma process_deduped:
  "leaderboard_cache r = Some c \<Longrightarrow> checksum c = generateChecksum H (getTopPlayers r 10) \<Longrightarrow>
     processLeaderboardChange H getUser W now message r = (r, None)"
  by (simp add: processLeaderboardChange_def getCachedLeaderboard_def Let_def)

lemma process_publishes_iff:
  "(snd (processLeaderboardChange H getUser W now message r) \<noteq> None) =
     ((case last_update r of None \<Rightarrow> True | Some l \<Rightarrow> W \<le> currentTime_of now message - l) \<and>
      (case leaderboard_cache r of
         None \<Rightarrow> True
       | Some c \<Rightarrow> checksum c \<noteq> generateChecksum H (getTopPlayers r 10)))"
  by (auto simp: processLeaderboardChange_def getLastUpdateTimestamp_def
      getCachedLeaderboard_def Let_def case_prod_beta split: option.splits)

lemma getTopPlayers_cong: "leaderboard r1 = leaderboard r \<Longrightarrow> getTopPlayers r1 k = getTopPlayers r k"
  by (simp add: getTopPlayers_def)

lemma process_published_state:
  assumes "processLeaderboardChange H getUser W now message r = (r1, Some ev)"
  shows "leaderboard r1 = leaderboard r \<and>
     last_update r1 = Some (currentTime_of now message) \<and>
     leaderboard_cache r1 =
       Some \<lparr>top10 = getTopPlayers r 10, timestamp = currentTime_of now message,
             checksum = generateChecksum H (getTopPlayers r 10)\<rparr> \<and>
     pub_timestamp ev = currentTime_of now message \<and>
     pub_checksum ev = generateChecksum H (getTopPlayers r 10) \<and>
     changedRankings ev =
       findChangedRankings (case leaderboard_cache r of Some c \<Rightarrow> top10 c | None \<Rightarrow> [])
         (getTopPlayers r 10)"
  using assms
  by (auto simp: processLeaderboardChange_def getLastUpdateTimestamp_def
      getCachedLeaderboard_def cacheLeaderboard_def setLastUpdateTimestamp_def
      enhance_leaderboard Let_def case_prod_beta split: option.splits if_splits)

lemma process_after_publish:
  assumes "processLeaderboardChange H getUser W now message r = (r1, Some ev)"
  shows "processLeaderboardChange H getUser2 W2 now2 message2 r1 = (r1, None)"
proof -
  have st: "leaderboard r1 = leaderboard r"
    "leaderboard_cache r1 =
       Some \<lparr>top10 = getTopPlayers r 10, timestamp = currentTime_of now message,
             checksum = generateChecksum H (getTopPlayers r 10)\<rparr>"
    using process_published_state [OF assms] by simp_all
  have "checksum \<lparr>top10 = getTopPlayers r 10, timestamp = currentTime_of now message,
             checksum = generateChecksum H (getTopPlayers r 10)\<rparr> =
      generateChecksum H (getTopPlayers r1 10)"
    by (simp add: getTopPlayers_cong [OF st(1)])
  with st(2) show ?thesis by (rule process_deduped)
qed

text \<open>
  Claim C2: \<^verbatim>\<open>processLeaderboardChange\<close> publishes exactly when both gates pass: the
  last update timestamp is unset or at least the throttle duration back, and no cached
  update has the checksum of the fresh top 10. A signal inside the throttle window
  returns without publishing and leaves the state as it was; so does one whose fresh
  snapshot has the cached checksum, whatever the time. When it publishes, it stores
  the signal's time and the new checksum, and any later signal on that state (ranked
  store untouched) publishes nothing.
\<close>

theorem onChangeSignal_two_gates:
  "((snd (processLeaderboardChange H getUser W now message r) \<noteq> None) =
     ((case last_update r of None \<Rightarrow> True | Some l \<Rightarrow> W \<le> currentTime_of now message - l) \<and>
      (case leaderboard_cache r of
         None \<Rightarrow> True
       | Some c \<Rightarrow> checksum c \<noteq> generateChecksum H (getTopPlayers r 10)))) \<and>
   (\<forall>l. last_update r = Some l \<and> currentTime_of now message - l < W \<longrightarrow>
      processLeaderboardChange H getUser W now message r = (r, None)) \<and>
   (\<forall>c. leaderboard_cache r = Some c \<and> checksum c = generateChecksum H (getTopPlayers r 10) \<longrightarrow>
      processLeaderboardChange H getUser W now message r = (r, None)) \<and>
   (\<forall>r1 ev. processLeaderboardChange H getUser W now message r = (r1, Some ev) \<longrightarrow>
      leaderboard r1 = leaderboard r \<and>
      last_update r1 = Some (currentTime_of now message) \<and>
      leaderboard_cache r1 =
        Some \<lparr>top10 = getTopPlayers r 10, timestamp = currentTime_of now message,
              checksum = generateChecksum H (getTopPlayers r 10)\<rparr> \<and>
      pub_timestamp ev = currentTime_of now message \<and>
      pub_checksum ev = generateChecksum H (getTopPlayers r 10) \<and>
      (\<forall>now2 message2. processLeaderboardChange H getUser W now2 message2 r1 = (r1, None)))"
proof (intro conjI allI impI)
  show "(snd (processLeaderboardChange H getUser W now message r) \<noteq> None) =
     ((case last_update r of None \<Rightarrow> True | Some l \<Rightarrow> W \<le> currentTime_of now message - l) \<and>
      (case leaderboard_cache r of
         None \<Rightarrow> True
       | Some c \<Rightarrow> checksum c \<noteq> generateChecksum H (getTopPlayers r 10)))"
    by (rule process_publishes_iff)
next
  fix l assume "last_update r = Some l \<and> currentTime_of now message - l < W"
  then show "processLeaderboardChange H getUser W now message r = (r, None)"
    by (simp add: process_throttled)
next
  fix c assume "leaderboard_cache r = Some c \<and> checksum c = generateChecksum H (getTopPlayers r 10)"
  then show "processLeaderboardChange H getUser W now message r = (r, None)"
    by (simp add: process_deduped)
next
  fix r1 ev assume p: "processLeaderboardChange H getUser W now message r = (r1, Some ev)"
  show "leaderboard r1 = leaderboard r"
    using process_published_state [OF p] by simp
  show "last_update r1 = Some (currentTime_of now message)"
    using process_published_state [OF p] by simp
  show "leaderboard_cache r1 =
        Some \<lparr>top10 = getTopPlayers r 10, timestamp = currentTime_of now message,
              checksum = generateChecksum H (getTopPlayers r 10)\<rparr>"
    using process_published_state [OF p] by simp
  show "pub_timestamp ev = currentTime_of now message"
    using process_published_state [OF p] by simp
  show "pub_checksum ev = generateChecksum H (getTopPlayers r 10)"
    using process_published_state [OF p] by simp
  fix now2 message2
  show "processLeaderboardChange H getUser W now2 message2 r1 = (r1, None)"
    using p by (rule process_after_publish)
qed

text \<open>
  Claim C2 on a store of two participants with throttle duration 500: the signal at
  1000 publishes, the one at 1100 is throttled, and the one at 1600, outside the
  window, is dropped because the checksum is the same.
\<close>

theorem onChangeSignal_two_gates_witness:
  "last_update (run_store [Upsert ''alice'' 1000, Upsert ''bob'' 2000]) = None \<and>
   leaderboard_cache (run_store [Upsert ''alice'' 1000, Upsert ''bob'' 2000]) = None \<and>
   snd (processLeaderboardChange (\<lambda>s. s) mock_getUser 500 0 \<lparr>km_timestamp = Some 1000\<rparr>
          (run_store [Upsert ''alice'' 1000, Upsert ''bob'' 2000])) \<noteq> None \<and>
   last_update (fst (processLeaderboardChange (\<lambda>s. s) mock_getUser 500 0 \<lparr>km_timestamp = Some 1000\<rparr>
          (run_store [Upsert ''alice'' 1000, Upsert ''bob'' 2000]))) = Some 1000 \<and>
   currentTime_of 0 \<lparr>km_timestamp = Some 1100\<rparr> - 1000 < 500 \<and>
   snd (processLeaderboardChange (\<lambda>s. s) mock_getUser 500 0 \<lparr>km_timestamp = Some 1100\<rparr>
          (fst (processLeaderboardChange (\<lambda>s. s) mock_getUser 500 0 \<lparr>km_timestamp = Some 1000\<rparr>
                 (run_store [Upsert ''alice'' 1000, Upsert ''bob'' 2000])))) = None \<and>
   \<not> currentTime_of 0 \<lparr>km_timestamp = Some 1600\<rparr> - 1000 < 500 \<and>
   snd (processLeaderboardChange (\<lambda>s. s) mock_getUser 500 0 \<lparr>km_timestamp = Some 1600\<rparr>
          (fst (processLeaderboardChange (\<lambda>s. s) mock_getUser 500 0 \<lparr>km_timestamp = Some 1000\<rparr>
                 (run_store [Upsert ''alice'' 1000, Upsert ''bob'' 2000])))) = None"
proof -
  let ?r0 = "run_store [Upsert ''alice'' 1000, Upsert ''bob'' 2000]"
  let ?p = "processLeaderboardChange (\<lambda>s. s) mock_getUser 500 0 \<lparr>km_timestamp = Some 1000\<rparr> ?r0"
  note gates0 = onChangeSignal_two_gates
    [of "\<lambda>s. s" mock_getUser 500 0 "\<lparr>km_timestamp = Some 1000\<rparr>" ?r0]
  note gates1 = onChangeSignal_two_gates
    [of "\<lambda>s. s" mock_getUser 500 0 "\<lparr>km_timestamp = Some 1100\<rparr>" "fst ?p"]
  note gates2 = onChangeSignal_two_gates
    [of "\<lambda>s. s" mock_getUser 500 0 "\<lparr>km_timestamp = Some 1600\<rparr>" "fst ?p"]
  have unset: "last_update ?r0 = None" "leaderboard_cache ?r0 = None"
    by (simp_all add: run_store_def empty_redis_def addScore_def)
  have first: "snd ?p \<noteq> None"
    unfolding gates0 [THEN conjunct1] unset by simp
  then obtain ev where p: "?p = (fst ?p, Some ev)"
    by (cases ?p) auto
  have t: "currentTime_of 0 \<lparr>km_timestamp = Some 1000\<rparr> = 1000"
    "currentTime_of 0 \<lparr>km_timestamp = Some 1100\<rparr> = 1100"
    "currentTime_of 0 \<lparr>km_timestamp = Some 1600\<rparr> = 1600"
    by (simp_all add: currentTime_of_def)
  note published = gates0 [THEN conjunct2, THEN conjunct2, THEN conjunct2, rule_format, OF p]
  have st1: "leaderboard (fst ?p) = leaderboard ?r0"
    using published by (rule conjunct1)
  have st2: "last_update (fst ?p) = Some 1000"
    using published [THEN conjunct2, THEN conjunct1] unfolding t .
  have st3: "leaderboard_cache (fst ?p) =
        Some \<lparr>top10 = getTopPlayers ?r0 10, timestamp = 1000,
              checksum = generateChecksum (\<lambda>s. s) (getTopPlayers ?r0 10)\<rparr>"
    using published [THEN conjunct2, THEN conjunct2, THEN conjunct1] unfolding t .
  have "processLeaderboardChange (\<lambda>s. s) mock_getUser 500 0
      \<lparr>km_timestamp = Some 1100\<rparr> (fst ?p) = (fst ?p, None)"
    by (rule gates1 [THEN conjunct2, THEN conjunct1, rule_format, of 1000]) (simp add: st2 t)
  then have throttled: "snd (processLeaderboardChange (\<lambda>s. s) mock_getUser 500 0
      \<lparr>km_timestamp = Some 1100\<rparr> (fst ?p)) = None"
    by simp
  have same: "getTopPlayers (fst ?p) 10 = getTopPlayers ?r0 10"
    unfolding getTopPlayers_def st1 ..
  have "processLeaderboardChange (\<lambda>s. s) mock_getUser 500 0
      \<lparr>km_timestamp = Some 1600\<rparr> (fst ?p) = (fst ?p, None)"
    by (rule gates2 [THEN conjunct2, THEN conjunct2, THEN conjunct1, rule_format,
          of "\<lparr>top10 = getTopPlayers ?r0 10, timestamp = 1000,
              checksum = generateChecksum (\<lambda>s. s) (getTopPlayers ?r0 10)\<rparr>"])
      (simp add: st3 same)
  then have deduped: "snd (processLeaderboardChange (\<lambda>s. s) mock_getUser 500 0
      \<lparr>km_timestamp = Some 1600\<rparr> (fst ?p)) = None"
    by simp
  have w: "(1100::int) - 1000 < 500" "\<not> (1600::int) - 1000 < 500"
    by simp_all
  show ?thesis
    unfolding t by (intro conjI) (rule unset first st2 throttled deduped w)+
qed

section \<open>Properties of the persistence queue\<close>

declare flush_loop.simps [simp del]

text \<open>The five ways the retry loop can end, by what the sink and the dead letter write do.\<close>

lemma flush_loop_done: "flush_loop sf df now b attempt True w = w"
  by (subst flush_loop.simps) simp

lemma flush_loop_exhausted: "3 \<le> attempt \<Longrightarrow> flush_loop sf df now b attempt success w = w"
  by (subst flush_loop.simps) (simp add: maxRetries_def)

lemma flush_loop_saved_1:
  "\<not> sf (save_calls w) \<Longrightarrow>
     flush_loop sf df now b 0 False w =
       w\<lparr>save_calls := save_calls w + 1, saved := saved w @ [b]\<rparr>"
  by (subst flush_loop.simps) (simp add: maxRetries_def Let_def flush_loop_done)

lemma flush_loop_saved_2:
  "sf (save_calls w) \<Longrightarrow> \<not> sf (save_calls w + 1) \<Longrightarrow>
     flush_loop sf df now b 0 False w =
       w\<lparr>save_calls := save_calls w + 2, sleeps := sleeps w @ [1000], saved := saved w @ [b]\<rparr>"
  apply (subst flush_loop.simps)
  apply (simp add: maxRetries_def retryDelay_def Let_def)
  apply (subst flush_loop.simps)
  apply (simp add: maxRetries_def Let_def flush_loop_done)
  done

lemma flush_loop_saved_3:
  "sf (save_calls w) \<Longrightarrow> sf (save_calls w + 1) \<Longrightarrow> \<not> sf (save_calls w + 2) \<Longrightarrow>
     flush_loop sf df now b 0 False w =
       w\<lparr>save_calls := save_calls w + 3, sleeps := sleeps w @ [1000, 2000],
         saved := saved w @ [b]\<rparr>"
  apply (subst flush_loop.simps)
  apply (simp add: maxRetries_def retryDelay_def Let_def)
  apply (subst flush_loop.simps)
  apply (simp add: maxRetries_def retryDelay_def Let_def)
  apply (subst flush_loop.simps)
  apply (simp add: maxRetries_def Let_def flush_loop_done)
  done

lemma flush_loop_failed:
  "sf (save_calls w) \<Longrightarrow> sf (save_calls w + 1) \<Longrightarrow> sf (save_calls w + 2) \<Longrightarrow>
     flush_loop sf df now b 0 False w =
       saveToDeadLetterQueue df now b
         (w\<lparr>save_calls := save_calls w + 3, sleeps := sleeps w @ [1000, 2000]\<rparr>)"
  apply (subst flush_loop.simps)
  apply (simp add: maxRetries_def retryDelay_def Let_def)
  apply (subst flush_loop.simps)
  apply (simp add: maxRetries_def retryDelay_def Let_def)
  apply (subst flush_loop.simps)
  apply (simp add: maxRetries_def Let_def flush_loop_exhausted)
  apply (rule arg_cong [where f = "saveToDeadLetterQueue df now b"])
  apply simp
  done

lemma flushBatch_runs:
  "batch svc \<noteq> [] \<Longrightarrow> \<not> saveInProgress svc \<Longrightarrow>
     flushBatch sf df now (svc, w) =
       (svc\<lparr>saveInProgress := False, batch := []\<rparr>, flush_loop sf df now (batch svc) 0 False w)"
  by (simp add: flushBatch_def Let_def)

text \<open>
  Claim C6, as the code has it: when a non-empty batch is flushed, the three calls of
  \<^verbatim>\<open>saveBatch\<close> fail and the dead letter write succeeds, exactly one entry is appended
  to the dead letter queue; it holds all submissions of the batch in their order, and
  its \<open>count\<close> is the number of submissions (the entry records no number of attempts;
  the sink was called three times).
\<close>

theorem exhausted_batch_dead_lettered:
  assumes "batch svc \<noteq> []" and "\<not> saveInProgress svc"
    and "sink_fails (save_calls w)" and "sink_fails (save_calls w + 1)"
    and "sink_fails (save_calls w + 2)" and "\<not> dlq_fails"
  shows "dead_letter_file (snd (flushBatch sink_fails dlq_fails now (svc, w))) =
       Some ((case dead_letter_file w of Some q \<Rightarrow> q | None \<Rightarrow> []) @
         [\<lparr>dl_timestamp = now, dl_count = length (batch svc), dl_submissions = batch svc\<rparr>]) \<and>
     save_calls (snd (flushBatch sink_fails dlq_fails now (svc, w))) = save_calls w + 3 \<and>
     saved (snd (flushBatch sink_fails dlq_fails now (svc, w))) = saved w \<and>
     critical_log (snd (flushBatch sink_fails dlq_fails now (svc, w))) = critical_log w \<and>
     batch (fst (flushBatch sink_fails dlq_fails now (svc, w))) = [] \<and>
     \<not> saveInProgress (fst (flushBatch sink_fails dlq_fails now (svc, w)))"
  using assms
  by (simp add: flushBatch_runs flush_loop_failed saveToDeadLetterQueue_def
      db_saveToDeadLetterQueue_def Let_def)

text \<open>Claim C6 at a batch of two submissions whose three saves fail.\<close>

theorem exhausted_batch_dead_lettered_witness:
  "dead_letter_file (snd (flushBatch (\<lambda>n. n < 3) False ''t1'' (service2, fresh_world))) =
     Some [\<lparr>dl_timestamp = ''t1'', dl_count = 2, dl_submissions = [sub1, sub2]\<rparr>] \<and>
   save_calls (snd (flushBatch (\<lambda>n. n < 3) False ''t1'' (service2, fresh_world))) = 3"
  using exhausted_batch_dead_lettered
    [of service2 "\<lambda>n. n < 3" fresh_world False "''t1''"]
  by simp

text \<open>
  Claim C6 as stated fails: for a batch of one submission the entry's only count is 1
  after three failed calls, and when the dead letter write fails too no entry is
  produced at all.
\<close>

theorem attempt_count_counterexample:
  "dead_letter_file (snd (flushBatch (\<lambda>n. n < 3) False ''t1'' (service1, fresh_world))) =
     Some [\<lparr>dl_timestamp = ''t1'', dl_count = 1, dl_submissions = [sub1]\<rparr>] \<and>
   save_calls (snd (flushBatch (\<lambda>n. n < 3) False ''t1'' (service1, fresh_world))) = 3 \<and>
   dead_letter_file (snd (flushBatch (\<lambda>n. n < 3) True ''t1'' (service1, fresh_world))) = None"
  by code_simp

text \<open>
  Claim C7, as the code has it: a flushed batch ends in exactly one of three places.
  If one of the three calls of \<^verbatim>\<open>saveBatch\<close> succeeds it is saved; if all three fail
  and the dead letter write succeeds it is one new dead letter entry; if that write
  fails as well it is reported on the CRITICAL log line with its content, and is in
  neither store.
\<close>

theorem batch_never_silently_dropped:
  assumes "batch svc \<noteq> []" and "\<not> saveInProgress svc"
  shows
    "((\<not> sink_fails (save_calls w) \<or> \<not> sink_fails (save_calls w + 1) \<or>
       \<not> sink_fails (save_calls w + 2)) \<longrightarrow>
        saved (snd (flushBatch sink_fails dlq_fails now (svc, w))) = saved w @ [batch svc] \<and>
        dead_letter_file (snd (flushBatch sink_fails dlq_fails now (svc, w))) = dead_letter_file w \<and>
        critical_log (snd (flushBatch sink_fails dlq_fails now (svc, w))) = critical_log w) \<and>
     (sink_fails (save_calls w) \<and> sink_fails (save_calls w + 1) \<and>
       sink_fails (save_calls w + 2) \<and> \<not> dlq_fails \<longrightarrow>
        saved (snd (flushBatch sink_fails dlq_fails now (svc, w))) = saved w \<and>
        dead_letter_file (snd (flushBatch sink_fails dlq_fails now (svc, w))) =
          Some ((case dead_letter_file w of Some q \<Rightarrow> q | None \<Rightarrow> []) @
            [\<lparr>dl_timestamp = now, dl_count = length (batch svc), dl_submissions = batch svc\<rparr>]) \<and>
        critical_log (snd (flushBatch sink_fails dlq_fails now (svc, w))) = critical_log w) \<and>
     (sink_fails (save_calls w) \<and> sink_fails (save_calls w + 1) \<and>
       sink_fails (save_calls w + 2) \<and> dlq_fails \<longrightarrow>
        saved (snd (flushBatch sink_fails dlq_fails now (svc, w))) = saved w \<and>
        dead_letter_file (snd (flushBatch sink_fails dlq_fails now (svc, w))) = dead_letter_file w \<and>
        critical_log (snd (flushBatch sink_fails dlq_fails now (svc, w))) =
          critical_log w @ [batch svc])"
proof -
  have run: "snd (flushBatch sink_fails dlq_fails now (svc, w)) =
      flush_loop sink_fails dlq_fails now (batch svc) 0 False w"
    using assms by (simp add: flushBatch_runs)
  show ?thesis
  proof (cases "sink_fails (save_calls w)")
    case False
    then show ?thesis unfolding run by (simp add: flush_loop_saved_1)
  next
    case f1: True
    show ?thesis
    proof (cases "sink_fails (save_calls w + 1)")
      case False
      then show ?thesis unfolding run using f1 by (simp add: flush_loop_saved_2)
    next
      case f2: True
      show ?thesis
      proof (cases "sink_fails (save_calls w + 2)")
        case False
        then show ?thesis unfolding run using f1 f2 by (simp add: flush_loop_saved_3)
      next
        case True
        then show ?thesis unfolding run using f1 f2
          by (simp add: flush_loop_failed saveToDeadLetterQueue_def
              db_saveToDeadLetterQueue_def Let_def)
      qed
    qed
  qed
qed

text \<open>Claim C7 at a batch of one submission, once for each of the three endings.\<close>

theorem batch_never_silently_dropped_witness:
  "saved (snd (flushBatch (\<lambda>n. n < 2) False ''t1'' (service1, fresh_world))) = [[sub1]] \<and>
   dead_letter_file (snd (flushBatch (\<lambda>n. n < 3) False ''t1'' (service1, fresh_world))) =
     Some [\<lparr>dl_timestamp = ''t1'', dl_count = 1, dl_submissions = [sub1]\<rparr>] \<and>
   critical_log (snd (flushBatch (\<lambda>n. n < 3) True ''t1'' (service1, fresh_world))) = [[sub1]]"
proof -
  note late = batch_never_silently_dropped
    [of service1 "\<lambda>n. n < 2" fresh_world False "''t1''"]
  note dead = batch_never_silently_dropped
    [of service1 "\<lambda>n. n < 3" fresh_world False "''t1''"]
  note lost = batch_never_silently_dropped
    [of service1 "\<lambda>n. n < 3" fresh_world True "''t1''"]
  have a: "saved (snd (flushBatch (\<lambda>n. n < 2) False ''t1'' (service1, fresh_world))) = [[sub1]]"
    using late by simp
  have b: "dead_letter_file (snd (flushBatch (\<lambda>n. n < 3) False ''t1'' (service1, fresh_world))) =
     Some [\<lparr>dl_timestamp = ''t1'', dl_count = 1, dl_submissions = [sub1]\<rparr>]"
    using dead by simp
  have c: "critical_log (snd (flushBatch (\<lambda>n. n < 3) True ''t1'' (service1, fresh_world))) = [[sub1]]"
    using lost by simp
  show ?thesis by (intro conjI) (rule a b c)+
qed

text \<open>
  Claim C7 as stated fails when the dead letter write fails after three failed saves:
  the batch is not saved, not dead-lettered and no longer pending; only the log has it.
\<close>

theorem lost_batch_counterexample:
  "saved (snd (flushBatch (\<lambda>n. n < 3) True ''t1'' (service1, fresh_world))) = [] \<and>
   dead_letter_file (snd (flushBatch (\<lambda>n. n < 3) True ''t1'' (service1, fresh_world))) = None \<and>
   batch (fst (flushBatch (\<lambda>n. n < 3) True ''t1'' (service1, fresh_world))) = [] \<and>
   \<not> saveInProgress (fst (flushBatch (\<lambda>n. n < 3) True ''t1'' (service1, fresh_world))) \<and>
   critical_log (snd (flushBatch (\<lambda>n. n < 3) True ''t1'' (service1, fresh_world))) = [[sub1]]"
  by code_simp

section \<open>Properties of the broadcast hub\<close>

text \<open>
  The two counters of \<^verbatim>\<open>broadcast\<close> cover every client registered at the start, and the
  registry it leaves is the clients whose connection was open.
\<close>

lemma broadcast_loop_counts:
  "fst (snd (broadcast_loop cs (reg, s, f))) + snd (snd (broadcast_loop cs (reg, s, f))) =
     s + f + length cs"
  by (induction cs arbitrary: reg s f) auto

lemma broadcast_counts_cover:
  "fst (snd (broadcast clients)) + snd (snd (broadcast clients)) = length clients"
  using broadcast_loop_counts [of clients clients 0 0] by (simp add: broadcast_def)

lemma broadcast_loop_registry:
  "fst (broadcast_loop cs (reg, s, f)) =
     filter (\<lambda>c. \<not> (c \<in> set cs \<and> ws_readyState c \<noteq> OPEN)) reg"
proof (induction cs arbitrary: reg s f)
  case Nil
  then show ?case by simp
next
  case (Cons client rest)
  have "filter (\<lambda>c. \<not> (c \<in> set rest \<and> ws_readyState c \<noteq> OPEN)) (removeAll client reg) =
      filter (\<lambda>c. \<not> (c \<in> set (client # rest) \<and> ws_readyState c \<noteq> OPEN)) reg"
    if "ws_readyState client \<noteq> OPEN"
    using that by (induction reg) auto
  moreover have "filter (\<lambda>c. \<not> (c \<in> set rest \<and> ws_readyState c \<noteq> OPEN)) reg =
      filter (\<lambda>c. \<not> (c \<in> set (client # rest) \<and> ws_readyState c \<noteq> OPEN)) reg"
    if "ws_readyState client = OPEN"
    using that by (induction reg) auto
  ultimately show ?case using Cons.IH by simp
qed

lemma broadcast_registry:
  "fst (broadcast clients) = filter (\<lambda>c. ws_readyState c = OPEN) clients"
proof -
  have "filter (\<lambda>c. \<not> (c \<in> set clients \<and> ws_readyState c \<noteq> OPEN)) clients =
      filter (\<lambda>c. ws_readyState c = OPEN) clients"
    by (rule filter_cong) auto
  then show ?thesis by (simp add: broadcast_def broadcast_loop_registry)
qed

text \<open>
  Claim C8 on three registered clients, the second with an open connection whose
  \<^verbatim>\<open>send\<close> throws: \<^verbatim>\<open>broadcast\<close> counts 2 delivered and 1 failed but leaves all three
  registered, so the next heartbeat calls \<^verbatim>\<open>send\<close> on the failed one again.
  \<^verbatim>\<open>sendHeartbeat\<close> on the same clients does remove it, and \<^verbatim>\<open>broadcast\<close> removes a
  client whose connection is closed.
\<close>

theorem broadcast_keeps_throwing_client:
  "broadcast [ws1, ws2_throwing, ws3] = ([ws1, ws2_throwing, ws3], 2, 1) \<and>
   snd (sendHeartbeat (fst (broadcast [ws1, ws2_throwing, ws3]))) = [ws1, ws2_throwing, ws3] \<and>
   fst (sendHeartbeat [ws1, ws2_throwing, ws3]) = [ws1, ws3] \<and>
   broadcast [ws1, ws2_closed, ws3] = ([ws1, ws3], 2, 1)"
  by (simp add: broadcast_def sendHeartbeat_def)

end
